theory Spec2Isabelle
  imports Complex_Main "HOL-Library.Sublist"
begin

section \<open>Python values and built-ins used by \<^verbatim>\<open>fonz/utils.py\<close>\<close>

text \<open>
  A Python \<^verbatim>\<open>str\<close> is modelled as a \<^typ>\<open>string\<close>, one \<^typ>\<open>char\<close> per code point
  (code points below 256); a Python \<^verbatim>\<open>int\<close> is an \<^typ>\<open>int\<close>. Every exception a
  function of the module can raise is a constructor of \<open>error\<close>, and a function that can
  raise returns \<open>error + 'a\<close>.
\<close>

datatype error = TypeError | IndexError | UnboundLocalError

abbreviation NL :: char where
  "NL \<equiv> CHR 0x0A"

text \<open>\<^verbatim>\<open>sep.join(xs)\<close>: the separator goes between neighbours only.\<close>

fun py_join :: "string \<Rightarrow> string list \<Rightarrow> string" where
  "py_join sep [] = []"
| "py_join sep [x] = x"
| "py_join sep (x # y # ys) = x @ sep @ py_join sep (y # ys)"

text \<open>
  \<^verbatim>\<open>s.split(sep)\<close> for a one-character separator: the text is cut at every occurrence
  of the separator, so the result has one more element than the text has separators
  (\<^verbatim>\<open>"".split("\n") == [""]\<close>). \<open>cur\<close> is the piece being read.
\<close>

fun split_from :: "char \<Rightarrow> string \<Rightarrow> string \<Rightarrow> string list" where
  "split_from sep cur [] = [cur]"
| "split_from sep cur (c # cs) =
     (if c = sep then cur # split_from sep [] cs else split_from sep (cur @ [c]) cs)"

definition py_split :: "string \<Rightarrow> char \<Rightarrow> string list" where
  "py_split s sep = split_from sep [] s"

text \<open>
  \<^verbatim>\<open>xs[start:stop]\<close> on integers: a negative bound counts from the end, then each
  bound is clamped to \<open>0 .. len(xs)\<close>; the slice is empty when the bounds cross.
  Slicing never raises.
\<close>

definition py_slice :: "'a list \<Rightarrow> int \<Rightarrow> int \<Rightarrow> 'a list" where
  "py_slice xs start stop =
     (let n = int (length xs);
          lo = (if start < 0 then max 0 (start + n) else min start n);
          hi = (if stop < 0 then max 0 (stop + n) else min stop n)
      in take (nat (hi - lo)) (drop (nat lo) xs))"

section \<open>\<^verbatim>\<open>mark_line\<close>\<close>

text \<open>
  The loop \<^verbatim>\<open>for i, line in enumerate(lines)\<close>: \<open>i\<close> is the running index, \<open>marked\<close> the
  list built so far by \<^verbatim>\<open>append\<close>.
\<close>

fun mark_line_loop :: "nat \<Rightarrow> string list \<Rightarrow> int \<Rightarrow> string \<Rightarrow> string list \<Rightarrow> string list" where
  "mark_line_loop i [] line_number char marked = marked"
| "mark_line_loop i (line # rest) line_number char marked =
     mark_line_loop (Suc i) rest line_number char
       (if int i = line_number then marked @ [char @ '' '' @ line]
        else marked @ [''| '' @ line])"

definition mark_line :: "string list \<Rightarrow> int \<Rightarrow> string \<Rightarrow> string list" where
  "mark_line lines line_number char = mark_line_loop 0 lines line_number char []"

section \<open>\<^verbatim>\<open>extract_sql_context\<close>\<close>

text \<open>
  The first half of the function, up to the slice: the value of the local
  \<^verbatim>\<open>selected_lines\<close>. The line number is shifted to an index, the window around it is
  computed, its start is raised to 0 and its end lowered to the number of lines.
\<close>

definition selected_lines :: "string \<Rightarrow> int \<Rightarrow> int \<Rightarrow> string list" where
  "selected_lines sql line_number window_size =
     (let split = py_split sql NL;
          line_number = line_number - 1;
          line_start = line_number - window_size;
          line_end = line_number + (window_size + 1);
          line_start = (if line_start \<ge> 0 then line_start else 0);
          line_end = (if line_end \<le> int (length split) then line_end else int (length split))
      in py_slice split line_start line_end)"

text \<open>The second half: the line at index \<^verbatim>\<open>window_size\<close> of the window is marked.\<close>

definition extract_sql_context :: "string \<Rightarrow> int \<Rightarrow> int \<Rightarrow> string" where
  "extract_sql_context sql line_number window_size =
     (let marked = mark_line (selected_lines sql line_number window_size) window_size ''*'';
          context = py_join [NL] marked
      in context)"

text \<open>
  The window as a property, stated without the slice: the lines from index \<open>L - 1 - w\<close>
  up to, not including, index \<open>L + w\<close>, both bounds clamped to the lines there are. It is
  empty when the clamped bounds meet or cross.
\<close>

definition clamped_window :: "string list \<Rightarrow> int \<Rightarrow> int \<Rightarrow> string list" where
  "clamped_window lines line_number window_size =
     (let lo = max 0 (line_number - 1 - window_size);
          hi = min (int (length lines)) (line_number + window_size)
      in take (nat hi - nat lo) (drop (nat lo) lines))"

section \<open>\<^verbatim>\<open>parse_error_line_number\<close>\<close>

text \<open>
  The pattern is \<^verbatim>\<open>at \[(\d+):\d+\]\<close>. Among the code points below 256, \<^verbatim>\<open>\d\<close> matches
  exactly the ten ASCII digits.
\<close>

definition is_digit :: "char \<Rightarrow> bool" where
  "is_digit c = (c \<in> set ''0123456789'')"

fun strip_prefix :: "string \<Rightarrow> string \<Rightarrow> string option" where
  "strip_prefix [] s = Some s"
| "strip_prefix (p # ps) [] = None"
| "strip_prefix (p # ps) (c # cs) = (if p = c then strip_prefix ps cs else None)"

text \<open>
  One attempt of the regex engine to match the pattern at the start of \<open>s\<close>: the literal
  \<^verbatim>\<open>at [\<close>, a greedy non-empty run of digits (the group), a colon, a second greedy
  non-empty run of digits and the closing bracket. The result is the group and the text
  after the match. Neither \<^verbatim>\<open>:\<close> nor \<^verbatim>\<open>]\<close> is a digit, so giving back digits of a greedy
  run can never turn a failed attempt into a match: the engine's backtracking has nothing
  to try and is left out.
\<close>

definition match_here :: "string \<Rightarrow> (string \<times> string) option" where
  "match_here s =
     (case strip_prefix ''at ['' s of
        None \<Rightarrow> None
      | Some r1 \<Rightarrow>
          (let line = takeWhile is_digit r1; r2 = dropWhile is_digit r1 in
           if line = [] then None
           else (case strip_prefix '':'' r2 of
                   None \<Rightarrow> None
                 | Some r3 \<Rightarrow>
                     (let col = takeWhile is_digit r3; r4 = dropWhile is_digit r3 in
                      if col = [] then None
                      else (case strip_prefix '']'' r4 of
                              None \<Rightarrow> None
                            | Some r5 \<Rightarrow> Some (line, r5))))))"

lemma strip_prefix_length:
  "strip_prefix p s = Some r \<Longrightarrow> length s = length p + length r"
  by (induction p s rule: strip_prefix.induct) (auto split: if_splits)

lemma match_here_shorter:
  assumes "match_here s = Some (g, r)"
  shows "length r < length s"
proof -
  from assms obtain r1 where r1: "strip_prefix ''at ['' s = Some r1"
    by (auto simp: match_here_def split: option.splits)
  from assms r1 obtain r3 where r3: "strip_prefix '':'' (dropWhile is_digit r1) = Some r3"
    by (auto simp: match_here_def Let_def split: option.splits if_splits)
  from assms r1 r3 have r5: "strip_prefix '']'' (dropWhile is_digit r3) = Some r"
    by (auto simp: match_here_def Let_def split: option.splits if_splits)
  have "length r \<le> length (dropWhile is_digit r3)"
    using strip_prefix_length [OF r5] by simp
  also have "\<dots> \<le> length r3" by (rule length_dropWhile_le)
  also have "\<dots> \<le> length (dropWhile is_digit r1)"
    using strip_prefix_length [OF r3] by simp
  also have "\<dots> \<le> length r1" by (rule length_dropWhile_le)
  also have "\<dots> < length s"
    using strip_prefix_length [OF r1] by simp
  finally show ?thesis .
qed

text \<open>
  \<^verbatim>\<open>re.findall\<close> with one group: scan from the left; where the pattern matches, keep the
  group and go on after the match, otherwise move one character on.
\<close>

function findall :: "string \<Rightarrow> string list" where
  "findall s =
     (case match_here s of
        Some (g, r) \<Rightarrow> g # findall r
      | None \<Rightarrow> (case s of [] \<Rightarrow> [] | c # cs \<Rightarrow> findall cs))"
  by pat_completeness auto
termination
  by (relation "measure length") (auto dest: match_here_shorter)

declare findall.simps [simp del]

text \<open>\<^verbatim>\<open>xs[0]\<close> raises \<^verbatim>\<open>IndexError\<close> on an empty list.\<close>

fun py_first :: "'a list \<Rightarrow> error + 'a" where
  "py_first [] = Inl IndexError"
| "py_first (x # xs) = Inr x"

text \<open>
  \<^verbatim>\<open>int(s)\<close> on a string of decimal digits (all that the group can hold): the number
  the digits denote, leading zeros allowed. Python integers are unbounded; a limit that an
  interpreter may put on the number of digits it converts is not modelled.
\<close>

definition digit_value :: "char \<Rightarrow> int" where
  "digit_value c = int (of_char c) - 48"

definition py_int :: "string \<Rightarrow> int" where
  "py_int s = foldl (\<lambda>acc c. 10 * acc + digit_value c) 0 s"

text \<open>
  The local \<^verbatim>\<open>line_number\<close> is an \<open>option\<close>: \<open>None\<close> while it is unbound. The
  \<^verbatim>\<open>try\<close> binds it to the first group; \<^verbatim>\<open>except IndexError: pass\<close> swallows the error and
  leaves it unbound; the \<^verbatim>\<open>else\<close> branch rebinds it to the integer. Reading an unbound
  local in \<^verbatim>\<open>return line_number\<close> raises \<^verbatim>\<open>UnboundLocalError\<close>.
\<close>

definition parse_error_line_number :: "string \<Rightarrow> error + int" where
  "parse_error_line_number error_message =
     (let line_number =
            (case py_first (findall error_message) of
               Inl e \<Rightarrow> if e = IndexError then Inr None else Inl e
             | Inr g \<Rightarrow> Inr (Some (py_int g)))
      in case line_number of
           Inl e \<Rightarrow> Inl e
         | Inr None \<Rightarrow> Inl UnboundLocalError
         | Inr (Some n) \<Rightarrow> Inr n)"

text \<open>
  An occurrence of \<^verbatim>\<open>at [L:C]\<close> in a message, as a property: at position \<open>i\<close> the
  message reads \<^verbatim>\<open>at [\<close>, the non-empty digit string \<open>L\<close>, a colon, the non-empty digit
  string \<open>C\<close> and \<^verbatim>\<open>]\<close>. This is the property the matcher is measured against, stated
  without reference to it.
\<close>

definition occurs_at :: "string \<Rightarrow> nat \<Rightarrow> string \<Rightarrow> string \<Rightarrow> bool" where
  "occurs_at msg i L C \<longleftrightarrow>
     L \<noteq> [] \<and> C \<noteq> [] \<and> list_all is_digit L \<and> list_all is_digit C \<and>
     prefix (''at ['' @ L @ '':'' @ C @ '']'') (drop i msg)"

section \<open>\<^verbatim>\<open>compose_url\<close>\<close>

text \<open>
  The values a caller passes: the elements of a path are strings, integers, booleans or
  \<^verbatim>\<open>None\<close>; the path itself is a list of them or, by mistake, something else.
\<close>

datatype part = PStr string | PInt int | PBool bool | PNone

datatype path_value = PathList "part list" | PathTuple "part list" | PathStr string | PathNone

fun nat_digits :: "nat \<Rightarrow> string" where
  "nat_digits n =
     (if n < 10 then [''0123456789'' ! n]
      else nat_digits (n div 10) @ [''0123456789'' ! (n mod 10)])"

declare nat_digits.simps [simp del]

text \<open>\<^verbatim>\<open>str(part)\<close>.\<close>

fun py_str :: "part \<Rightarrow> string" where
  "py_str (PStr s) = s"
| "py_str (PInt i) = (if i < 0 then ''-'' @ nat_digits (nat (- i)) else nat_digits (nat i))"
| "py_str (PBool b) = (if b then ''True'' else ''False'')"
| "py_str PNone = ''None''"

text \<open>\<^verbatim>\<open>s.strip(ch)\<close> for a single character: drop it from both ends, as often as it is there.\<close>

definition py_strip :: "char \<Rightarrow> string \<Rightarrow> string" where
  "py_strip ch s = rev (dropWhile (\<lambda>c. c = ch) (rev (dropWhile (\<lambda>c. c = ch) s)))"

definition compose_url :: "string \<Rightarrow> path_value \<Rightarrow> error + string" where
  "compose_url base_url path =
     (case path of
        PathList ps \<Rightarrow>
          (let parts = PStr base_url # ps;
               url = py_join ''/'' (map (\<lambda>part. py_strip (CHR ''/'') (py_str part)) parts)
           in Inr url)
      | _ \<Rightarrow> Inl TypeError)"

section \<open>The Bisector\<close>

text \<open>
  Modelled from the spec: the Query entity of the data model (the class is not among the
  source files). A Query has its owning Explore, an ordered sequence of Fields, an optional
  remote query id and remote task id, a status, an optional runtime in seconds and an
  optional error detail.
\<close>

datatype status = Pending | Dispatched | CompletedPassed | CompletedErrored | Divided

record error_detail =
  ed_message :: string
  ed_sql :: string
  ed_line_number :: "int option"
  ed_context :: "string option"

record ('e, 'f) query =
  q_explore :: 'e
  q_fields :: "'f list"
  q_query_id :: "nat option"
  q_task_id :: "string option"
  q_status :: status
  q_runtime :: "real option"
  q_error :: "error_detail option"

text \<open>
  Modelled from the spec: a new Query made by the Bisector is Pending, references the
  parent's Explore and shares no other state with the parent.
\<close>

definition child :: "('e, 'f) query \<Rightarrow> 'f list \<Rightarrow> ('e, 'f) query" where
  "child q fs =
     \<lparr>q_explore = q_explore q, q_fields = fs, q_query_id = None, q_task_id = None,
      q_status = Pending, q_runtime = None, q_error = None\<rparr>"

text \<open>
  Modelled from the spec: \<^verbatim>\<open>Query.divide\<close> is not among the source files (only a test
  that patches it is). The spec's Bisector is a pure function on a Query with more than
  one field: it splits the ordered field sequence at index \<open>ceil(n/2)\<close>, here
  \<open>(n + 1) div 2\<close>, and produces two new Queries, each with its half. A Query with a
  single field cannot be divided; the model returns \<open>None\<close> for it.
\<close>

definition divide :: "('e, 'f) query \<Rightarrow> (('e, 'f) query \<times> ('e, 'f) query) option" where
  "divide q =
     (let n = length (q_fields q); k = (n + 1) div 2 in
      if n > 1 then Some (child q (take k (q_fields q)), child q (drop k (q_fields q)))
      else None)"

section \<open>Properties of \<^verbatim>\<open>mark_line\<close>\<close>

lemma mark_line_loop_map:
  "mark_line_loop i lines n c marked =
     marked @ map (\<lambda>(j, line). (if int j = n then c @ '' '' else ''| '') @ line)
                  (enumerate i lines)"
  by (induction lines arbitrary: i marked) auto

lemma mark_line_map:
  "mark_line lines n c =
     map (\<lambda>(j, line). (if int j = n then c @ '' '' else ''| '') @ line) (enumerate 0 lines)"
  by (simp add: mark_line_def mark_line_loop_map)

lemma mark_line_length: "length (mark_line lines n c) = length lines"
  by (simp add: mark_line_map)

lemma mark_line_nth:
  "k < length lines \<Longrightarrow>
   mark_line lines n c ! k = (if int k = n then c @ '' '' else ''| '') @ lines ! k"
  by (simp add: mark_line_map nth_enumerate_eq)

lemma mark_line_no_mark:
  "line_number < 0 \<or> int (length lines) \<le> line_number \<Longrightarrow>
   mark_line lines line_number c = map (\<lambda>line. ''| '' @ line) lines"
  by (rule nth_equalityI) (auto simp: mark_line_length mark_line_nth)

section \<open>Splitting and joining lines\<close>

lemma split_from_no_sep:
  "sep \<notin> set cur \<Longrightarrow> \<forall>l\<in>set (split_from sep cur s). sep \<notin> set l"
proof (induction s arbitrary: cur)
  case Nil
  then show ?case by simp
next
  case (Cons c cs)
  show ?case
  proof (cases "c = sep")
    case True
    then show ?thesis using Cons.prems Cons.IH [of "[]"] by simp
  next
    case False
    then show ?thesis using Cons.prems Cons.IH [of "cur @ [c]"] by simp
  qed
qed

lemma py_split_no_sep: "\<forall>l\<in>set (py_split s sep). sep \<notin> set l"
  unfolding py_split_def by (rule split_from_no_sep) simp

lemma split_from_nonempty: "split_from sep cur s \<noteq> []"
  by (induction s arbitrary: cur) auto

lemma py_split_nonempty: "py_split s sep \<noteq> []"
  by (simp add: py_split_def split_from_nonempty)

lemma split_from_append:
  "sep \<notin> set x \<Longrightarrow> split_from sep cur (x @ rest) = split_from sep (cur @ x) rest"
  by (induction x arbitrary: cur) auto

lemma split_from_join:
  "sep \<notin> set x \<Longrightarrow> \<forall>y\<in>set xs. sep \<notin> set y \<Longrightarrow>
   split_from sep cur (py_join [sep] (x # xs)) = (cur @ x) # xs"
proof (induction xs arbitrary: cur x)
  case Nil
  then show ?case using split_from_append [of sep x cur "[]"] by simp
next
  case (Cons y ys)
  have "split_from sep cur (py_join [sep] (x # y # ys))
        = split_from sep (cur @ x) (sep # py_join [sep] (y # ys))"
    using Cons.prems(1) split_from_append [of sep x cur "sep # py_join [sep] (y # ys)"]
    by simp
  also have "\<dots> = (cur @ x) # split_from sep [] (py_join [sep] (y # ys))"
    by simp
  also have "\<dots> = (cur @ x) # y # ys"
    using Cons.IH [of y "[]"] Cons.prems(2) by simp
  finally show ?case .
qed

lemma py_split_join:
  "xs \<noteq> [] \<Longrightarrow> \<forall>y\<in>set xs. sep \<notin> set y \<Longrightarrow> py_split (py_join [sep] xs) sep = xs"
  using split_from_join [of sep "hd xs" "tl xs" "[]"]
  by (cases xs) (auto simp: py_split_def)

lemma split_from_join_back:
  "py_join [sep] (split_from sep cur s) = cur @ s"
proof (induction s arbitrary: cur)
  case Nil
  then show ?case by simp
next
  case (Cons c cs)
  show ?case
  proof (cases "c = sep")
    case True
    obtain a rest where ar: "split_from sep [] cs = a # rest"
      using split_from_nonempty [of sep "[]" cs] by (cases "split_from sep [] cs") auto
    have "py_join [sep] (a # rest) = cs"
      using Cons.IH [of "[]"] ar by simp
    then show ?thesis using True ar by simp
  next
    case False
    then show ?thesis using Cons.IH [of "cur @ [c]"] by simp
  qed
qed

lemma py_join_split: "py_join [sep] (py_split s sep) = s"
  by (simp add: py_split_def split_from_join_back)

lemma mark_line_no_sep:
  assumes "\<forall>l\<in>set lines. NL \<notin> set l" and "m \<in> set (mark_line lines n ''*'')"
  shows "NL \<notin> set m"
  using assms by (auto simp: mark_line_map in_set_enumerate_eq split: if_splits)

section \<open>The window of \<^verbatim>\<open>extract_sql_context\<close>\<close>

lemma py_slice_take_drop:
  "0 \<le> start \<Longrightarrow> 0 \<le> stop \<Longrightarrow> stop \<le> int (length xs) \<Longrightarrow>
   py_slice xs start stop = take (nat stop - nat start) (drop (nat start) xs)"
proof (cases "start \<le> int (length xs)")
  case True
  assume "0 \<le> start" "0 \<le> stop" "stop \<le> int (length xs)"
  moreover from this have "nat (stop - start) = nat stop - nat start" by arith
  ultimately show ?thesis using True by (simp add: py_slice_def Let_def min_def)
next
  case False
  assume "0 \<le> start" "0 \<le> stop" "stop \<le> int (length xs)"
  then show ?thesis using False by (simp add: py_slice_def Let_def min_def)
qed

lemma py_slice_bounds:
  "\<exists>lo hi. lo \<le> hi \<and> hi \<le> length xs \<and> py_slice xs start stop = take (hi - lo) (drop lo xs)"
proof -
  define n where "n = int (length xs)"
  define lo where "lo = (if start < 0 then max 0 (start + n) else min start n)"
  define hi where "hi = (if stop < 0 then max 0 (stop + n) else min stop n)"
  have b: "0 \<le> lo" "lo \<le> n" "0 \<le> hi" "hi \<le> n"
    by (auto simp: lo_def hi_def n_def)
  have eq: "py_slice xs start stop = take (nat (hi - lo)) (drop (nat lo) xs)"
    by (simp add: py_slice_def Let_def lo_def hi_def n_def)
  show ?thesis
  proof (cases "lo \<le> hi")
    case True
    have "nat lo \<le> nat hi" "nat hi \<le> length xs" "nat (hi - lo) = nat hi - nat lo"
      using True b by (auto simp: n_def nat_diff_distrib)
    then show ?thesis using eq by metis
  next
    case False
    then have "py_slice xs start stop = take (nat lo - nat lo) (drop (nat lo) xs)"
      using eq by simp
    moreover have "nat lo \<le> length xs" using b by (simp add: n_def)
    ultimately show ?thesis by blast
  qed
qed

lemma selected_lines_valid:
  assumes "1 \<le> L" "L \<le> int (length (py_split sql NL))" "0 \<le> w"
  shows "selected_lines sql L w =
           take (nat (min (int (length (py_split sql NL))) (L + w)) - nat (max 0 (L - 1 - w)))
                (drop (nat (max 0 (L - 1 - w))) (py_split sql NL))"
proof -
  let ?split = "py_split sql NL"
  have "py_slice ?split (max 0 (L - 1 - w)) (min (int (length ?split)) (L + w))
        = take (nat (min (int (length ?split)) (L + w)) - nat (max 0 (L - 1 - w)))
               (drop (nat (max 0 (L - 1 - w))) ?split)"
    using assms by (intro py_slice_take_drop) auto
  moreover have "(if L - 1 - w \<ge> 0 then L - 1 - w else 0) = max 0 (L - 1 - w)"
    by simp
  moreover have "(if L - 1 + (w + 1) \<le> int (length ?split) then L - 1 + (w + 1) else int (length ?split))
                 = min (int (length ?split)) (L + w)"
    by simp
  ultimately show ?thesis
    unfolding selected_lines_def Let_def by simp
qed

lemma selected_lines_length:
  assumes "1 \<le> L" "L \<le> int (length (py_split sql NL))" "0 \<le> w"
  shows "int (length (selected_lines sql L w)) =
           min (int (length (py_split sql NL))) (L + w) - max 0 (L - 1 - w)"
  using assms by (simp add: selected_lines_valid)

lemma selected_lines_within:
  "\<exists>lo hi. lo \<le> hi \<and> hi \<le> length (py_split sql NL) \<and>
     selected_lines sql line_number window_size = take (hi - lo) (drop lo (py_split sql NL))"
  unfolding selected_lines_def Let_def by (rule py_slice_bounds)

lemma selected_lines_no_NL: "\<forall>l\<in>set (selected_lines sql L w). NL \<notin> set l"
proof -
  obtain lo hi where "selected_lines sql L w = take (hi - lo) (drop lo (py_split sql NL))"
    using selected_lines_within by blast
  then have "set (selected_lines sql L w) \<subseteq> set (py_split sql NL)"
    by (metis set_take_subset set_drop_subset subset_trans)
  then show ?thesis using py_split_no_sep [of sql NL] by blast
qed

text \<open>The lines of a snippet, read back with the same \<^verbatim>\<open>split\<close>.\<close>

lemma mark_line_strip: "map (drop 2) (mark_line lines n ''*'') = lines"
  by (rule nth_equalityI) (auto simp: mark_line_length mark_line_nth)

lemma snippet_lines:
  assumes "selected_lines sql L w \<noteq> []"
  shows "py_split (extract_sql_context sql L w) NL = mark_line (selected_lines sql L w) w ''*''"
proof -
  have "mark_line (selected_lines sql L w) w ''*'' \<noteq> []"
    using assms mark_line_length [of "selected_lines sql L w" w "''*''"] by auto
  moreover have "\<forall>m\<in>set (mark_line (selected_lines sql L w) w ''*''). NL \<notin> set m"
    using mark_line_no_sep selected_lines_no_NL by blast
  ultimately show ?thesis
    by (simp add: extract_sql_context_def py_split_join)
qed

lemma selected_lines_nonempty:
  assumes "1 \<le> L" "L \<le> int (length (py_split sql NL))" "0 \<le> w"
  shows "selected_lines sql L w \<noteq> []"
  using selected_lines_length [OF assms] assms by auto

section \<open>The matcher against occurrences of the pattern\<close>

lemma strip_prefix_iff: "strip_prefix p s = Some r \<longleftrightarrow> s = p @ r"
  by (induction p s rule: strip_prefix.induct) auto

lemma strip_prefix_append [simp]: "strip_prefix p (p @ r) = Some r"
  by (simp add: strip_prefix_iff)

lemma not_digit_colon [simp]: "\<not> is_digit (CHR '':'')"
  by (simp add: is_digit_def)

lemma not_digit_bracket [simp]: "\<not> is_digit (CHR '']'')"
  by (simp add: is_digit_def)

lemma takeWhile_digits:
  "list_all is_digit ds \<Longrightarrow> \<not> is_digit c \<Longrightarrow> takeWhile is_digit (ds @ c # r) = ds"
  by (induction ds) auto

lemma dropWhile_digits:
  "list_all is_digit ds \<Longrightarrow> \<not> is_digit c \<Longrightarrow> dropWhile is_digit (ds @ c # r) = c # r"
  by (induction ds) auto

lemma match_here_complete:
  assumes "L \<noteq> []" "C \<noteq> []" "list_all is_digit L" "list_all is_digit C"
  shows "match_here (''at ['' @ L @ '':'' @ C @ '']'' @ post) = Some (L, post)"
proof -
  have 1: "strip_prefix ''at ['' (''at ['' @ L @ '':'' @ C @ '']'' @ post)
             = Some (L @ '':'' @ C @ '']'' @ post)"
    by (rule strip_prefix_append)
  have 2: "takeWhile is_digit (L @ '':'' @ C @ '']'' @ post) = L"
    using takeWhile_digits [OF assms(3) not_digit_colon] by simp
  have 3: "dropWhile is_digit (L @ '':'' @ C @ '']'' @ post) = '':'' @ C @ '']'' @ post"
    using dropWhile_digits [OF assms(3) not_digit_colon] by simp
  have 4: "strip_prefix '':'' ('':'' @ C @ '']'' @ post) = Some (C @ '']'' @ post)"
    by (rule strip_prefix_append)
  have 5: "takeWhile is_digit (C @ '']'' @ post) = C"
    using takeWhile_digits [OF assms(4) not_digit_bracket] by simp
  have 6: "dropWhile is_digit (C @ '']'' @ post) = '']'' @ post"
    using dropWhile_digits [OF assms(4) not_digit_bracket] by simp
  have 7: "strip_prefix '']'' ('']'' @ post) = Some post"
    by (rule strip_prefix_append)
  show ?thesis
    unfolding match_here_def 1 option.case Let_def 2 3 4 5 6 7
    using assms(1,2) by simp
qed

lemma match_here_sound:
  assumes "match_here s = Some (g, r)"
  shows "\<exists>C. g \<noteq> [] \<and> C \<noteq> [] \<and> list_all is_digit g \<and> list_all is_digit C \<and>
             s = ''at ['' @ g @ '':'' @ C @ '']'' @ r"
proof -
  from assms obtain r1 where r1: "strip_prefix ''at ['' s = Some r1"
    by (auto simp: match_here_def split: option.splits)
  from assms r1 obtain r3 where r3: "strip_prefix '':'' (dropWhile is_digit r1) = Some r3"
    by (auto simp: match_here_def Let_def split: option.splits if_splits)
  from assms r1 r3 have r5: "strip_prefix '']'' (dropWhile is_digit r3) = Some r"
    and g: "g = takeWhile is_digit r1" "g \<noteq> []" and c: "takeWhile is_digit r3 \<noteq> []"
    by (auto simp: match_here_def Let_def split: option.splits if_splits)
  let ?C = "takeWhile is_digit r3"
  have "s = ''at ['' @ r1" using r1 by (simp only: strip_prefix_iff)
  also have "r1 = g @ dropWhile is_digit r1" by (simp add: g)
  also have "dropWhile is_digit r1 = '':'' @ r3" using r3 by (simp only: strip_prefix_iff)
  also have "r3 = ?C @ dropWhile is_digit r3" by simp
  also have "dropWhile is_digit r3 = '']'' @ r" using r5 by (simp only: strip_prefix_iff)
  finally have "s = ''at ['' @ g @ '':'' @ ?C @ '']'' @ r" .
  moreover have "list_all is_digit g" "list_all is_digit ?C"
    by (auto simp: g list_all_iff dest: set_takeWhileD)
  ultimately show ?thesis using g(2) c by blast
qed

lemma occurs_at_0_match:
  assumes "occurs_at s 0 L C"
  shows "\<exists>post. match_here s = Some (L, post)"
proof -
  from assms obtain post where s: "s = (''at ['' @ L @ '':'' @ C @ '']'') @ post"
    unfolding occurs_at_def prefix_def by auto
  from assms have d: "L \<noteq> []" "C \<noteq> []" "list_all is_digit L" "list_all is_digit C"
    unfolding occurs_at_def by auto
  have "match_here s = Some (L, post)"
    using match_here_complete [OF d, of post] unfolding s by simp
  then show ?thesis by blast
qed

lemma match_here_None:
  "(\<forall>L C. \<not> occurs_at s 0 L C) \<Longrightarrow> match_here s = None"
proof (rule ccontr)
  assume no: "\<forall>L C. \<not> occurs_at s 0 L C" and "match_here s \<noteq> None"
  then obtain g r where "match_here s = Some (g, r)" by auto
  from match_here_sound [OF this] obtain C where
    "g \<noteq> []" "C \<noteq> []" "list_all is_digit g" "list_all is_digit C"
    "s = ''at ['' @ g @ '':'' @ C @ '']'' @ r" by blast
  then have "occurs_at s 0 g C" by (simp add: occurs_at_def prefix_def)
  with no show False by blast
qed

lemma occurs_at_Cons: "occurs_at (c # s) (Suc i) L C = occurs_at s i L C"
  by (simp add: occurs_at_def)

lemma occurs_at_nonempty: "occurs_at s i L C \<Longrightarrow> i < length s"
  by (cases "i < length s") (auto simp: occurs_at_def)

lemma findall_first:
  assumes "occurs_at msg i L C" and "\<forall>j<i. \<forall>L' C'. \<not> occurs_at msg j L' C'"
  shows "\<exists>rest. findall msg = L # rest"
  using assms
proof (induction i arbitrary: msg)
  case 0
  then obtain post where "match_here msg = Some (L, post)"
    using occurs_at_0_match by blast
  then show ?case by (subst findall.simps) simp
next
  case (Suc i)
  from Suc.prems(1) obtain c cs where msg: "msg = c # cs"
    using occurs_at_nonempty [of msg "Suc i" L C] by (cases msg) auto
  have "match_here msg = None"
    using Suc.prems(2) by (intro match_here_None) blast
  then have f: "findall msg = findall cs"
    by (subst findall.simps) (simp add: msg)
  have "occurs_at cs i L C"
    using Suc.prems(1) by (simp add: msg occurs_at_Cons)
  moreover have "\<forall>j<i. \<forall>L' C'. \<not> occurs_at cs j L' C'"
    using Suc.prems(2) occurs_at_Cons [of c cs] by (auto simp: msg)
  ultimately show ?case using Suc.IH f by simp
qed

lemma findall_none:
  "\<forall>i L C. \<not> occurs_at msg i L C \<Longrightarrow> findall msg = []"
proof (induction msg)
  case Nil
  have "match_here [] = None" by (simp add: match_here_def)
  then show ?case by (subst findall.simps) simp
next
  case (Cons c cs)
  have "match_here (c # cs) = None"
    using Cons.prems by (intro match_here_None) blast
  then have "findall (c # cs) = findall cs"
    by (subst findall.simps) simp
  moreover have "\<forall>i L C. \<not> occurs_at cs i L C"
    using Cons.prems occurs_at_Cons [of c cs] by blast
  ultimately show ?case using Cons.IH by simp
qed

lemma parse_no_occurrence:
  "\<forall>i L C. \<not> occurs_at msg i L C \<Longrightarrow> parse_error_line_number msg = Inl UnboundLocalError"
  by (simp add: parse_error_line_number_def findall_none)

lemma first_occurrence_exists:
  assumes "occurs_at msg i L C"
  shows "\<exists>i0 L0 C0. i0 \<le> i \<and> occurs_at msg i0 L0 C0 \<and>
           (\<forall>j<i0. \<forall>L' C'. \<not> occurs_at msg j L' C')"
proof -
  define P where "P k = (\<exists>L' C'. occurs_at msg k L' C')" for k
  have "P i" using assms P_def by blast
  then have "P (LEAST k. P k)" "(LEAST k. P k) \<le> i" "\<forall>j<(LEAST k. P k). \<not> P j"
    by (auto intro: LeastI Least_le dest: not_less_Least)
  then show ?thesis unfolding P_def by blast
qed

text \<open>\<^verbatim>\<open>int\<close> reads a digit string as a decimal numeral.\<close>

lemma py_int_snoc: "py_int (ds @ [d]) = 10 * py_int ds + digit_value d"
  by (simp add: py_int_def)

lemma digit_value_table:
  "list_all (\<lambda>d. digit_value (''0123456789'' ! d) = int d) [0..<10]"
  by (simp add: digit_value_def upt_rec)

lemma digit_value_nth: "n < 10 \<Longrightarrow> digit_value (''0123456789'' ! n) = int n"
  using digit_value_table unfolding list_all_iff by simp

lemma py_int_nat_digits: "py_int (nat_digits n) = int n"
proof (induction n rule: nat_digits.induct)
  case (1 n)
  show ?case
  proof (cases "n < 10")
    case True
    then show ?thesis
      by (subst nat_digits.simps) (simp add: py_int_def digit_value_nth)
  next
    case False
    have "py_int (nat_digits n) = 10 * py_int (nat_digits (n div 10)) + digit_value (''0123456789'' ! (n mod 10))"
      using False by (subst nat_digits.simps) (simp add: py_int_snoc)
    also have "\<dots> = 10 * int (n div 10) + int (n mod 10)"
      using 1 False by (simp add: digit_value_nth)
    also have "\<dots> = int n" by presburger
    finally show ?thesis .
  qed
qed

section \<open>Where the marker lands\<close>

text \<open>
  The marker is put at index \<open>w\<close> of the window. When the window is not cut at its start
  (\<open>w < L\<close>), index \<open>w\<close> of the window is line \<open>L\<close>; the cut at the end does not move it.
\<close>

lemma marked_line_when_start_not_cut:
  assumes "w < L" and "L \<le> int (length (py_split sql NL))" and "0 \<le> w"
  shows "py_split (extract_sql_context sql L w) NL ! nat w = ''* '' @ py_split sql NL ! nat (L - 1)"
    and "\<forall>k<length (py_split (extract_sql_context sql L w) NL). k \<noteq> nat w \<longrightarrow>
           take 2 (py_split (extract_sql_context sql L w) NL ! k) = ''| ''"
proof -
  let ?lines = "py_split sql NL"
  let ?sel = "selected_lines sql L w"
  have v: "1 \<le> L" using assms by arith
  have snip: "py_split (extract_sql_context sql L w) NL = mark_line ?sel w ''*''"
    using selected_lines_nonempty [OF v assms(2,3)] by (rule snippet_lines)
  have m: "max 0 (L - 1 - w) = L - 1 - w" using assms by arith
  have sel: "?sel = take (nat (min (int (length ?lines)) (L + w)) - nat (L - 1 - w))
                         (drop (nat (L - 1 - w)) ?lines)"
    using selected_lines_valid [OF v assms(2,3)] by (simp only: m)
  have len: "int (length ?sel) = min (int (length ?lines)) (L + w) - (L - 1 - w)"
    using selected_lines_length [OF v assms(2,3)] by (simp only: m)
  have k: "nat w < length ?sel" using len assms by arith
  have "length ?sel \<le> nat (min (int (length ?lines)) (L + w)) - nat (L - 1 - w)"
    by (subst sel) simp
  then have kc: "nat w < nat (min (int (length ?lines)) (L + w)) - nat (L - 1 - w)"
    using k by arith
  have "?sel ! nat w = take (nat (min (int (length ?lines)) (L + w)) - nat (L - 1 - w))
                         (drop (nat (L - 1 - w)) ?lines) ! nat w"
    using sel by simp
  also have "\<dots> = drop (nat (L - 1 - w)) ?lines ! nat w"
    using kc by (rule nth_take)
  also have "\<dots> = ?lines ! (nat (L - 1 - w) + nat w)"
  proof -
    have "nat (L - 1 - w) \<le> length ?lines" using assms by arith
    then show ?thesis by (rule nth_drop)
  qed
  also have "nat (L - 1 - w) + nat w = nat (L - 1)" using assms by arith
  finally have "?sel ! nat w = ?lines ! nat (L - 1)" .
  then show "py_split (extract_sql_context sql L w) NL ! nat w = ''* '' @ ?lines ! nat (L - 1)"
    using k assms(3) by (simp add: snip mark_line_nth)
  show "\<forall>k<length (py_split (extract_sql_context sql L w) NL). k \<noteq> nat w \<longrightarrow>
           take 2 (py_split (extract_sql_context sql L w) NL ! k) = ''| ''"
    using assms(3) by (auto simp: snip mark_line_length mark_line_nth)
qed

text \<open>
  When the window is cut at its start (\<open>L \<le> w\<close>), index \<open>w\<close> of the window is line
  \<open>w + 1\<close> of the SQL, whatever \<open>L\<close> is; that line is marked if the SQL has it.
\<close>

lemma marked_line_when_start_cut:
  assumes "1 \<le> L" and "L \<le> w" and "w < int (length (py_split sql NL))"
  shows "py_split (extract_sql_context sql L w) NL ! nat w = ''* '' @ py_split sql NL ! nat w"
proof -
  let ?lines = "py_split sql NL"
  let ?sel = "selected_lines sql L w"
  have v: "L \<le> int (length ?lines)" "0 \<le> w" using assms by arith+
  have snip: "py_split (extract_sql_context sql L w) NL = mark_line ?sel w ''*''"
    using selected_lines_nonempty [OF assms(1) v] by (rule snippet_lines)
  have m: "max 0 (L - 1 - w) = 0" using assms by arith
  have sel: "?sel = take (nat (min (int (length ?lines)) (L + w))) ?lines"
    using selected_lines_valid [OF assms(1) v] by (simp add: m)
  have kc: "nat w < nat (min (int (length ?lines)) (L + w))" using assms by arith
  have k: "nat w < length ?sel" using kc by (subst sel) simp
  have "?sel ! nat w = take (nat (min (int (length ?lines)) (L + w))) ?lines ! nat w"
    using sel by simp
  also have "\<dots> = ?lines ! nat w" using kc by (rule nth_take)
  finally show ?thesis using k v(2) by (simp add: snip mark_line_nth)
qed

section \<open>Stripping slashes\<close>

lemma py_strip_decomp:
  "\<exists>a z. s = a @ py_strip ch s @ z \<and> set a \<subseteq> {ch} \<and> set z \<subseteq> {ch}"
proof -
  let ?P = "\<lambda>c. c = ch"
  let ?t = "dropWhile ?P s"
  have 1: "s = takeWhile ?P s @ ?t" by simp
  have "rev (takeWhile ?P (rev ?t) @ dropWhile ?P (rev ?t)) = rev (rev ?t)"
    by (simp only: takeWhile_dropWhile_id)
  then have "rev (dropWhile ?P (rev ?t)) @ rev (takeWhile ?P (rev ?t)) = ?t"
    by (simp only: rev_append rev_rev_ident)
  then have 2: "?t = py_strip ch s @ rev (takeWhile ?P (rev ?t))"
    by (simp only: py_strip_def)
  have "s = takeWhile ?P s @ py_strip ch s @ rev (takeWhile ?P (rev ?t))"
    using 1 2 by simp
  moreover have "set (takeWhile ?P s) \<subseteq> {ch}"
    by (auto dest: set_takeWhileD)
  moreover have "set (rev (takeWhile ?P (rev ?t))) \<subseteq> {ch}"
    by (auto dest: set_takeWhileD)
  ultimately show ?thesis by blast
qed

lemma py_strip_ends:
  assumes "py_strip ch s \<noteq> []"
  shows "hd (py_strip ch s) \<noteq> ch \<and> last (py_strip ch s) \<noteq> ch"
proof -
  let ?P = "\<lambda>c. c = ch"
  let ?t = "dropWhile ?P s"
  let ?u = "dropWhile ?P (rev ?t)"
  have u: "?u \<noteq> []" using assms by (simp add: py_strip_def)
  have t: "?t \<noteq> []"
  proof
    assume e: "?t = []"
    have "?u = dropWhile ?P (rev [])" by (simp only: e)
    with u show False by simp
  qed
  have "last (py_strip ch s) = hd ?u"
    using u by (simp add: py_strip_def last_rev)
  moreover have "hd ?u \<noteq> ch" using u hd_dropWhile [of ?P "rev ?t"] by simp
  moreover have "hd (py_strip ch s) = last ?u"
    using u by (simp add: py_strip_def hd_rev)
  moreover have "last ?u = last (rev ?t)"
  proof -
    have "rev ?t = takeWhile ?P (rev ?t) @ ?u" by simp
    then show ?thesis using u by (metis last_appendR)
  qed
  moreover have "last (rev ?t) = hd ?t" using t by (simp add: last_rev)
  moreover have "hd ?t \<noteq> ch" using t hd_dropWhile [of ?P s] by simp
  ultimately show ?thesis by simp
qed

section \<open>Halves\<close>

lemma ceiling_half: "\<lceil>real n / 2\<rceil> = int ((n + 1) div 2)"
  by (cases "even n") (auto elim!: evenE oddE simp: ceiling_eq_iff field_simps)

lemma floor_half: "\<lfloor>real n / 2\<rfloor> = int (n div 2)"
  using floor_divide_of_nat_eq [of n 2, where ?'a = real] by simp

section \<open>The slice against the clamped window\<close>

lemma selected_lines_clamped:
  assumes "0 \<le> L + w \<or> L + w \<le> - int (length (py_split sql NL))"
  shows "selected_lines sql L w = clamped_window (py_split sql NL) L w"
proof -
  let ?split = "py_split sql NL"
  let ?lo = "max 0 (L - 1 - w)"
  let ?hi = "min (int (length ?split)) (L + w)"
  have unfolded: "selected_lines sql L w = py_slice ?split ?lo ?hi"
  proof -
    have "(if L - 1 - w \<ge> 0 then L - 1 - w else 0) = ?lo" by simp
    moreover have "(if L - 1 + (w + 1) \<le> int (length ?split) then L - 1 + (w + 1)
                    else int (length ?split)) = ?hi" by simp
    ultimately show ?thesis unfolding selected_lines_def Let_def by simp
  qed
  from assms show ?thesis
  proof
    assume "0 \<le> L + w"
    then have "py_slice ?split ?lo ?hi = take (nat ?hi - nat ?lo) (drop (nat ?lo) ?split)"
      by (intro py_slice_take_drop) auto
    then show ?thesis by (simp add: unfolded clamped_window_def Let_def)
  next
    assume far: "L + w \<le> - int (length ?split)"
    have ne: "0 < int (length ?split)" using py_split_nonempty [of sql NL] by simp
    have hi: "?hi = L + w" "L + w < 0" "L + w + int (length ?split) \<le> 0"
      using far ne by arith+
    have "py_slice ?split ?lo ?hi = []"
      using hi by (simp add: py_slice_def Let_def max_def)
    moreover have "clamped_window ?split L w = []"
      using hi by (simp add: clamped_window_def Let_def)
    ultimately show ?thesis by (simp add: unfolded)
  qed
qed

section \<open>Line numbers before the first line\<close>

text \<open>
  A window whose end falls before the first line is not empty: the negative end of the
  slice counts from the last line.
\<close>

lemma selected_lines_negative_end:
  assumes "0 \<le> w" and "L + w < 0"
  shows "selected_lines sql L w =
           take (nat (int (length (py_split sql NL)) + (L + w))) (py_split sql NL)"
proof -
  have "L - 1 - w < 0" "L - 1 + (w + 1) < 0" "L - 1 + (w + 1) \<le> int (length (py_split sql NL))"
    using assms by arith+
  then show ?thesis
    by (simp add: selected_lines_def py_slice_def Let_def max_def add.commute add.left_commute)
qed

section \<open>The claims\<close>

text \<open>
  C10: for every sequence of lines and every integer line number, \<^verbatim>\<open>mark_line\<close> returns a
  list of the same length with the lines in the same order, each behind its two-character
  prefix; when the line number is outside \<open>[0, len(lines))\<close> every line is prefixed with
  \<^verbatim>\<open>"| "\<close>, none with the marker, and nothing is raised (the function has no failing
  branch).
\<close>

theorem mark_line_total_same_length_order:
  "length (mark_line lines line_number c) = length lines \<and>
   (\<forall>k<length lines.
      mark_line lines line_number c ! k =
        (if int k = line_number then c @ '' '' else ''| '') @ lines ! k) \<and>
   (line_number < 0 \<or> int (length lines) \<le> line_number \<longrightarrow>
      mark_line lines line_number c = map (\<lambda>line. ''| '' @ line) lines)"
  by (simp add: mark_line_length mark_line_nth mark_line_no_mark)

theorem mark_line_total_same_length_order_witness:
  "((5::int) < 0 \<or> int (length [''select 1'', ''from t'']) \<le> 5) \<and>
   mark_line [''select 1'', ''from t''] 5 ''*'' = [''| select 1'', ''| from t''] \<and>
   length (mark_line [''select 1'', ''from t''] 5 ''*'') = length [''select 1'', ''from t'']"
  using mark_line_total_same_length_order [of "[''select 1'', ''from t'']" 5 "''*''"]
  by simp

text \<open>
  C3: for every SQL string, every valid 1-indexed line number \<open>L\<close> and every window size
  \<open>w \<ge> 0\<close>, the snippet has at most \<open>2 * w + 1\<close> lines, and without their prefixes they
  are consecutive lines of the SQL, in order; when the window reaches neither end of the
  SQL (\<open>w < L\<close> and \<open>L + w \<le> N\<close>) the snippet has exactly \<open>2 * w + 1\<close> lines, those from
  line \<open>L - w\<close> on, and line \<open>L\<close> is the middle one.
\<close>

theorem extract_sql_context_window:
  assumes "1 \<le> L" and "L \<le> int (length (py_split sql NL))" and "0 \<le> w"
  shows "int (length (py_split (extract_sql_context sql L w) NL)) \<le> 2 * w + 1 \<and>
         (\<exists>lo. map (drop 2) (py_split (extract_sql_context sql L w) NL) =
                 take (length (py_split (extract_sql_context sql L w) NL))
                      (drop lo (py_split sql NL))) \<and>
         (w < L \<and> L + w \<le> int (length (py_split sql NL)) \<longrightarrow>
            int (length (py_split (extract_sql_context sql L w) NL)) = 2 * w + 1 \<and>
            map (drop 2) (py_split (extract_sql_context sql L w) NL) =
              take (nat (2 * w + 1)) (drop (nat (L - 1 - w)) (py_split sql NL)) \<and>
            drop 2 (py_split (extract_sql_context sql L w) NL ! nat w) =
              py_split sql NL ! nat (L - 1))"
proof -
  let ?lines = "py_split sql NL"
  let ?sel = "selected_lines sql L w"
  let ?snip = "py_split (extract_sql_context sql L w) NL"
  have snip: "?snip = mark_line ?sel w ''*''"
    using selected_lines_nonempty [OF assms] by (rule snippet_lines)
  have len: "int (length ?snip) = min (int (length ?lines)) (L + w) - max 0 (L - 1 - w)"
    by (simp add: snip mark_line_length selected_lines_length [OF assms])
  have strip: "map (drop 2) ?snip = ?sel"
    by (simp add: snip mark_line_strip)
  have sel: "?sel = take (length ?snip) (drop (nat (max 0 (L - 1 - w))) ?lines)"
    using selected_lines_valid [OF assms] by (simp add: snip mark_line_length)
  have c1: "int (length ?snip) \<le> 2 * w + 1"
    using len by arith
  have c2: "\<exists>lo. map (drop 2) ?snip = take (length ?snip) (drop lo ?lines)"
    using strip sel by metis
  have c3: "int (length ?snip) = 2 * w + 1 \<and>
            map (drop 2) ?snip = take (nat (2 * w + 1)) (drop (nat (L - 1 - w)) ?lines) \<and>
            drop 2 (?snip ! nat w) = ?lines ! nat (L - 1)"
    if full: "w < L \<and> L + w \<le> int (length ?lines)"
  proof -
    have l: "int (length ?snip) = 2 * w + 1" using len full by arith
    then have l': "length ?snip = nat (2 * w + 1)" by arith
    have m: "max 0 (L - 1 - w) = L - 1 - w" using full by arith
    have s: "map (drop 2) ?snip = take (nat (2 * w + 1)) (drop (nat (L - 1 - w)) ?lines)"
      using strip sel l' m by simp
    have "nat w < length ?snip" using l' assms(3) by arith
    then have "drop 2 (?snip ! nat w) = map (drop 2) ?snip ! nat w" by simp
    also have "\<dots> = drop (nat (L - 1 - w)) ?lines ! nat w"
      using s assms(3) by simp
    also have "\<dots> = ?lines ! (nat (L - 1 - w) + nat w)"
    proof -
      have "nat (L - 1 - w) \<le> length ?lines" using full assms(3) by arith
      then show ?thesis by (rule nth_drop)
    qed
    also have "nat (L - 1 - w) + nat w = nat (L - 1)" using full assms(3) by arith
    finally show ?thesis using l s by simp
  qed
  show ?thesis using c1 c2 c3 by blast
qed

theorem extract_sql_context_window_witness:
  "(1::int) \<le> 3 \<and>
   3 \<le> int (length (py_split (''select a'' @ [NL] @ ''from t'' @ [NL] @ ''where x'' @ [NL] @ ''limit 1'') NL)) \<and>
   (0::int) \<le> 1 \<and> (1::int) < 3 \<and>
   3 + 1 \<le> int (length (py_split (''select a'' @ [NL] @ ''from t'' @ [NL] @ ''where x'' @ [NL] @ ''limit 1'') NL)) \<and>
   map (drop 2) (py_split (extract_sql_context
       (''select a'' @ [NL] @ ''from t'' @ [NL] @ ''where x'' @ [NL] @ ''limit 1'') 3 1) NL) =
     [''from t'', ''where x'', ''limit 1''] \<and>
   drop 2 (py_split (extract_sql_context
       (''select a'' @ [NL] @ ''from t'' @ [NL] @ ''where x'' @ [NL] @ ''limit 1'') 3 1) NL ! nat 1) =
     ''where x''"
proof -
  let ?sql = "''select a'' @ [NL] @ ''from t'' @ [NL] @ ''where x'' @ [NL] @ ''limit 1''"
  have h1: "(1::int) \<le> 3" and h3: "(0::int) \<le> 1" by simp_all
  have h2: "3 \<le> int (length (py_split ?sql NL))" by (simp add: py_split_def)
  show ?thesis
    using extract_sql_context_window [OF h1 h2 h3] by (simp add: py_split_def)
qed

text \<open>
  C9: \<^verbatim>\<open>extract_sql_context\<close> has no failing branch: it returns a string for every SQL
  string and all integers \<open>L\<close> and \<open>w\<close>. Whenever \<open>L + w\<close> is not strictly between \<open>- N\<close>
  and \<open>0\<close> (so for every \<open>L \<ge> 0\<close> with \<open>w \<ge> 0\<close>: zero, and values past the last line),
  the selected window is the window \<open>[L - 1 - w, L + w)\<close> clamped to the bounds of the
  lines of the SQL; the snippet is its lines, marked, and the empty string when the
  window is empty.
\<close>

theorem extract_sql_context_clamped_window:
  assumes "0 \<le> line_number + window_size \<or>
           line_number + window_size \<le> - int (length (py_split sql NL))"
  shows "selected_lines sql line_number window_size =
           clamped_window (py_split sql NL) line_number window_size \<and>
         extract_sql_context sql line_number window_size =
           py_join [NL] (mark_line (clamped_window (py_split sql NL) line_number window_size)
                                   window_size ''*'') \<and>
         (if clamped_window (py_split sql NL) line_number window_size = []
          then extract_sql_context sql line_number window_size = []
          else py_split (extract_sql_context sql line_number window_size) NL =
                 mark_line (clamped_window (py_split sql NL) line_number window_size)
                           window_size ''*'')"
proof -
  have s: "selected_lines sql line_number window_size =
             clamped_window (py_split sql NL) line_number window_size"
    using assms by (rule selected_lines_clamped)
  have e: "extract_sql_context sql line_number window_size =
             py_join [NL] (mark_line (clamped_window (py_split sql NL) line_number window_size)
                                     window_size ''*'')"
    by (simp add: extract_sql_context_def s)
  have n: "extract_sql_context sql line_number window_size = []"
    if "clamped_window (py_split sql NL) line_number window_size = []"
    using that by (simp add: e mark_line_def)
  have m: "py_split (extract_sql_context sql line_number window_size) NL =
             mark_line (clamped_window (py_split sql NL) line_number window_size) window_size ''*''"
    if "clamped_window (py_split sql NL) line_number window_size \<noteq> []"
    using that snippet_lines [of sql line_number window_size] by (simp add: s)
  show ?thesis using s e n m by simp
qed

theorem extract_sql_context_clamped_window_witness:
  "extract_sql_context (''select 1'' @ [NL] @ ''from t'') 0 2 = ''| select 1'' @ [NL] @ ''| from t'' \<and>
   extract_sql_context (''select 1'' @ [NL] @ ''from t'') 9 2 = [] \<and>
   extract_sql_context (''select 1'' @ [NL] @ ''from t'') (- 2) 2 = [] \<and>
   extract_sql_context (''select 1'' @ [NL] @ ''from t'') (- 7) 2 = []"
proof -
  let ?sql = "''select 1'' @ [NL] @ ''from t''"
  have h0: "0 \<le> (0::int) + 2 \<or> (0::int) + 2 \<le> - int (length (py_split ?sql NL))"
    and h9: "0 \<le> (9::int) + 2 \<or> (9::int) + 2 \<le> - int (length (py_split ?sql NL))"
    and h2: "0 \<le> (- 2::int) + 2 \<or> (- 2::int) + 2 \<le> - int (length (py_split ?sql NL))"
    and h7: "0 \<le> (- 7::int) + 2 \<or> (- 7::int) + 2 \<le> - int (length (py_split ?sql NL))"
    by (simp_all add: py_split_def)
  show ?thesis
    using extract_sql_context_clamped_window [OF h0] extract_sql_context_clamped_window [OF h9]
      extract_sql_context_clamped_window [OF h2] extract_sql_context_clamped_window [OF h7]
    by (simp add: py_split_def clamped_window_def mark_line_def)
qed

text \<open>
  C9 as first stated, for every integer line number, fails where \<open>- N < L + w < 0\<close>: for
  a five-line SQL, \<open>L = - 4\<close> and \<open>w = 2\<close> the clamped window is empty, but the end of the
  slice is \<open>- 2\<close> and counts from the last line, so three lines are selected and the
  snippet is not empty.
\<close>

theorem extract_sql_context_negative_end_counterexample:
  "selected_lines
     (''select a'' @ [NL] @ ''from t'' @ [NL] @ ''where x'' @ [NL] @ ''group by a'' @ [NL] @ ''limit 1'')
     (- 4) 2 \<noteq>
   clamped_window
     (py_split (''select a'' @ [NL] @ ''from t'' @ [NL] @ ''where x'' @ [NL] @ ''group by a'' @ [NL] @ ''limit 1'') NL)
     (- 4) 2 \<and>
   clamped_window
     (py_split (''select a'' @ [NL] @ ''from t'' @ [NL] @ ''where x'' @ [NL] @ ''group by a'' @ [NL] @ ''limit 1'') NL)
     (- 4) 2 = [] \<and>
   extract_sql_context
     (''select a'' @ [NL] @ ''from t'' @ [NL] @ ''where x'' @ [NL] @ ''group by a'' @ [NL] @ ''limit 1'')
     (- 4) 2 = ''| select a'' @ [NL] @ ''| from t'' @ [NL] @ ''* where x''"
  by (simp add: extract_sql_context_def selected_lines_def clamped_window_def py_split_def
      py_slice_def mark_line_def Let_def)

text \<open>
  C4: when a message has an occurrence of \<^verbatim>\<open>at [L:C]\<close> at position \<open>i\<close>, with \<open>L\<close> and \<open>C\<close>
  non-empty digit strings, and no occurrence starts before \<open>i\<close>, then
  \<^verbatim>\<open>parse_error_line_number\<close> returns the integer that \<open>L\<close> denotes.
\<close>

theorem parse_error_line_number_first_occurrence:
  assumes "occurs_at error_message i L C"
    and "\<forall>j<i. \<forall>L' C'. \<not> occurs_at error_message j L' C'"
  shows "parse_error_line_number error_message = Inr (py_int L)"
proof -
  obtain rest where "findall error_message = L # rest"
    using findall_first [OF assms] by blast
  then show ?thesis by (simp add: parse_error_line_number_def)
qed

theorem parse_error_line_number_first_occurrence_witness:
  "occurs_at ''Error at [30:1] or at [4:5]'' 6 ''30'' ''1'' \<and>
   parse_error_line_number ''Error at [30:1] or at [4:5]'' = Inr 30"
proof -
  have h1: "occurs_at ''Error at [30:1] or at [4:5]'' 6 ''30'' ''1''"
    by (simp add: occurs_at_def is_digit_def)
  have h2: "\<forall>j<6. \<forall>L' C'. \<not> occurs_at ''Error at [30:1] or at [4:5]'' j L' C'"
  proof (intro allI impI)
    fix j :: nat and L' C'
    assume "j < 6"
    then have "j = 0 \<or> j = 1 \<or> j = 2 \<or> j = 3 \<or> j = 4 \<or> j = 5" by arith
    then show "\<not> occurs_at ''Error at [30:1] or at [4:5]'' j L' C'"
      by (elim disjE) (simp_all add: occurs_at_def)
  qed
  have v: "py_int ''30'' = 30" by (simp add: py_int_def digit_value_def)
  show ?thesis
    using h1 parse_error_line_number_first_occurrence [OF h1 h2] by (simp only: v)
qed

text \<open>
  C1: the claim is that with the default window size 2 the starred line of the snippet
  is line \<open>L\<close> of the SQL, also when \<open>L\<close> is within two lines of the first line. The code
  stars index 2 of the window whether or not the window was cut at its start: for a
  five-line SQL and \<open>L = 1\<close> the starred line is line 3 and line 1 carries the context
  prefix.
\<close>

theorem extract_sql_context_stars_third_line_for_first:
  "extract_sql_context
     (''select a'' @ [NL] @ ''from t'' @ [NL] @ ''where x'' @ [NL] @ ''group by a'' @ [NL] @ ''limit 1'')
     1 2
   = ''| select a'' @ [NL] @ ''| from t'' @ [NL] @ ''* where x''"
  by (simp add: extract_sql_context_def selected_lines_def py_split_def py_slice_def
      mark_line_def Let_def)

text \<open>
  C5: the claim is that the offending line is prefixed with \<^verbatim>\<open>"* "\<close> and every other line
  with \<^verbatim>\<open>"| "\<close>. For a two-line SQL and \<open>L = 2\<close> the window is cut at its start, holds
  two lines and has no index 2: the offending line carries the context prefix and no
  line is starred.
\<close>

theorem extract_sql_context_no_star_for_second_of_two:
  "extract_sql_context (''select 1'' @ [NL] @ ''from t'') 2 2
   = ''| select 1'' @ [NL] @ ''| from t''"
  by (simp add: extract_sql_context_def selected_lines_def py_split_def py_slice_def
      mark_line_def Let_def)

text \<open>
  C2: the claim is that for a message without the pattern the call completes and returns
  no line number. The code swallows the \<^verbatim>\<open>IndexError\<close> and then returns a local that was
  never bound: the call raises \<^verbatim>\<open>UnboundLocalError\<close>.
\<close>

theorem parse_error_line_number_raises_without_pattern:
  "parse_error_line_number ''Unrecognized name: user_id'' = Inl UnboundLocalError"
  by (simp add: parse_error_line_number_def findall.simps match_here_def)

text \<open>
  C8: \<^verbatim>\<open>compose_url\<close> raises \<^verbatim>\<open>TypeError\<close> exactly when the path is not a list; for a
  list it returns the base URL and the elements, each turned into a string and stripped
  of leading and trailing slashes, joined by single slashes.
\<close>

theorem compose_url_joins_stripped_parts:
  "(compose_url base_url path = Inl TypeError \<longleftrightarrow> (\<forall>ps. path \<noteq> PathList ps)) \<and>
   compose_url base_url (PathList ps) =
     Inr (py_join ''/'' (map (py_strip (CHR ''/'')) (base_url # map py_str ps)))"
  by (cases path) (simp_all add: compose_url_def comp_def)

theorem compose_url_joins_stripped_parts_witness:
  "compose_url ''https://host/api/'' (PathList [PStr ''/looks/'', PStr [], PInt 12])
     = Inr ''https://host/api/looks//12'' \<and>
   compose_url ''https://host/api/'' (PathStr ''looks'') = Inl TypeError"
proof -
  have s: "py_strip (CHR ''/'') ''https://host/api/'' = ''https://host/api''"
    "py_strip (CHR ''/'') ''/looks/'' = ''looks''"
    "py_strip (CHR ''/'') [] = []"
    "py_strip (CHR ''/'') ''12'' = ''12''"
    by (simp_all add: py_strip_def)
  have d: "nat_digits 12 = ''12''"
    by (simp add: nat_digits.simps)
  show ?thesis
    using compose_url_joins_stripped_parts
            [of "''https://host/api/''" "PathStr ''looks''" "[PStr ''/looks/'', PStr [], PInt 12]"]
    by (simp add: s d)
qed

text \<open>
  C6: for a Query with \<open>n > 1\<close> de-duplicated fields, \<^verbatim>\<open>divide\<close> returns two Queries
  whose field sets are disjoint, whose field sequences concatenate to the parent's, and
  whose sizes are \<open>ceil(n/2)\<close> and \<open>floor(n/2)\<close>; both are Pending and refer to the parent's
  Explore.
\<close>

theorem divide_halves:
  assumes "1 < length (q_fields q)" and "distinct (q_fields q)"
  shows "\<exists>a b. divide q = Some (a, b) \<and>
           set (q_fields a) \<inter> set (q_fields b) = {} \<and>
           q_fields a @ q_fields b = q_fields q \<and>
           int (length (q_fields a)) = \<lceil>real (length (q_fields q)) / 2\<rceil> \<and>
           int (length (q_fields b)) = \<lfloor>real (length (q_fields q)) / 2\<rfloor> \<and>
           q_status a = Pending \<and> q_status b = Pending \<and>
           q_explore a = q_explore q \<and> q_explore b = q_explore q"
proof -
  let ?fs = "q_fields q"
  let ?k = "(length ?fs + 1) div 2"
  let ?a = "child q (take ?k ?fs)"
  let ?b = "child q (drop ?k ?fs)"
  have d: "divide q = Some (?a, ?b)"
    using assms(1) by (simp add: divide_def Let_def)
  have "distinct (take ?k ?fs @ drop ?k ?fs)" using assms(2) by simp
  then have dis: "set (q_fields ?a) \<inter> set (q_fields ?b) = {}"
    unfolding distinct_append by (simp add: child_def)
  have cat: "q_fields ?a @ q_fields ?b = ?fs" by (simp add: child_def)
  have la: "int (length (q_fields ?a)) = \<lceil>real (length ?fs) / 2\<rceil>"
    unfolding ceiling_half by (simp add: child_def) 
  have lb: "int (length (q_fields ?b)) = \<lfloor>real (length ?fs) / 2\<rfloor>"
    unfolding floor_half by (simp add: child_def)
  have st: "q_status ?a = Pending" "q_status ?b = Pending"
    "q_explore ?a = q_explore q" "q_explore ?b = q_explore q"
    by (simp_all add: child_def)
  show ?thesis using d dis cat la lb st by blast
qed

theorem divide_halves_witness:
  "1 < length (q_fields \<lparr>q_explore = ''users'', q_fields = [''id'', ''name'', ''age''],
        q_query_id = Some 12345, q_task_id = Some ''abcdef12345'', q_status = Dispatched,
        q_runtime = None, q_error = None\<rparr>) \<and>
   distinct (q_fields \<lparr>q_explore = ''users'', q_fields = [''id'', ''name'', ''age''],
        q_query_id = Some 12345, q_task_id = Some ''abcdef12345'', q_status = Dispatched,
        q_runtime = None, q_error = None\<rparr>) \<and>
   (\<exists>a b. divide \<lparr>q_explore = ''users'', q_fields = [''id'', ''name'', ''age''],
        q_query_id = Some 12345, q_task_id = Some ''abcdef12345'', q_status = Dispatched,
        q_runtime = None, q_error = None\<rparr> = Some (a, b) \<and>
      q_fields a = [''id'', ''name''] \<and> q_fields b = [''age''])"
proof -
  let ?q = "\<lparr>q_explore = ''users'', q_fields = [''id'', ''name'', ''age''],
        q_query_id = Some 12345, q_task_id = Some ''abcdef12345'', q_status = Dispatched,
        q_runtime = None, q_error = None\<rparr>"
  have h1: "1 < length (q_fields ?q)" by simp
  have h2: "distinct (q_fields ?q)" by simp
  have v: "divide ?q = Some (child ?q [''id'', ''name''], child ?q [''age''])"
    by (simp add: divide_def Let_def)
  from divide_halves [OF h1 h2] obtain a b where
    "divide ?q = Some (a, b)" "q_fields a @ q_fields b = q_fields ?q" by blast
  with v have "divide ?q = Some (a, b) \<and> q_fields a = [''id'', ''name''] \<and> q_fields b = [''age'']"
    by (simp add: child_def)
  then show ?thesis using h1 h2 by blast
qed

end
